theory Spec2Isabelle
  imports Main "HOL-Library.Word"
begin

unbundle bit_operations_syntax

section \<open>The hash primitive\<close>

text \<open>
  The configured hash is a Go \<open>hash.Hash64\<close>: an object with \<open>Reset\<close>, \<open>Write\<close> and
  \<open>Sum64\<close>. It is modelled by its three operations over a state type \<open>'s\<close>.
  \<open>Reset\<close> puts the object into its initial state, so it is a constant of the model; the
  only method of the skeleton that touches the object, \<open>hash\<close>, starts with \<open>Reset\<close>, hence
  the state a previous call left behind is never observed and is not threaded through.
  Go strings are byte sequences: \<open>string\<close>, one \<open>char\<close> per byte.
\<close>

record 's Hash64 =
  Reset :: "'s"
  Write :: "'s \<Rightarrow> string \<Rightarrow> 's"
  Sum64 :: "'s \<Rightarrow> 64 word"

text \<open>
  The default of \<open>GetDefaultOptions\<close> is \<open>fnv.New64()\<close> of Go's standard library, the
  64-bit FNV-1 hash: the state is the running 64-bit value, \<open>Reset\<close> stores the offset
  basis, \<open>Write\<close> multiplies by the prime and then xors the byte in, for each byte.
\<close>

definition offset64 :: "64 word" where
  "offset64 = 14695981039346656037"

definition prime64 :: "64 word" where
  "prime64 = 1099511628211"

definition fnvWrite :: "64 word \<Rightarrow> string \<Rightarrow> 64 word" where
  "fnvWrite s data = foldl (\<lambda>h c. (h * prime64) XOR of_nat (of_char c)) s data"

definition New64 :: "64 word Hash64" where
  "New64 = \<lparr>Reset = offset64, Write = fnvWrite, Sum64 = (\<lambda>s. s)\<rparr>"

text \<open>
  A streaming hash digests the bytes it was fed, however they were cut into \<open>Write\<close>
  calls. This is the contract of \<open>hash.Hash\<close> (``Write adds more data to the running
  hash''); FNV-1 satisfies it.
\<close>

definition streaming :: "'s Hash64 \<Rightarrow> bool" where
  "streaming H \<longleftrightarrow> (\<forall>s a b. Write H (Write H s a) b = Write H s (a @ b))"

section \<open>Options and the skeleton\<close>

text \<open>The field \<open>hash\<close> of \<open>Options\<close> is called \<open>hashAlg\<close>: the method \<open>hash\<close> keeps its name.\<close>

record 's Options =
  fanOut :: int
  hashAlg :: "'s Hash64"
  clusterSize :: int
  minClusterSize :: int

definition GetDefaultOptions :: "64 word Options" where
  "GetDefaultOptions =
     \<lparr>fanOut = 3, hashAlg = New64, clusterSize = 2, minClusterSize = 2\<rparr>"

text \<open>An \<open>Option\<close> updates the options; none of the four returns an error.\<close>

type_synonym 's Option = "'s Options \<Rightarrow> 's Options"

definition FanOut :: "int \<Rightarrow> 's Option" where
  "FanOut n = (\<lambda>opts. opts\<lparr>fanOut := n\<rparr>)"

definition HashAlgorithm :: "'s Hash64 \<Rightarrow> 's Option" where
  "HashAlgorithm h = (\<lambda>opts. opts\<lparr>hashAlg := h\<rparr>)"

definition ClusterSize :: "int \<Rightarrow> 's Option" where
  "ClusterSize n = (\<lambda>opts. opts\<lparr>clusterSize := n\<rparr>)"

definition MinClusterSize :: "int \<Rightarrow> 's Option" where
  "MinClusterSize n = (\<lambda>opts. opts\<lparr>minClusterSize := n\<rparr>)"

record 's SkeletonRendezvous =
  options :: "'s Options"
  Clusters :: "string list list"
  Nodes :: "string list"
  VirtualNodes :: int

definition NewSkeletonRendezvous :: "64 word Option list \<Rightarrow> 64 word SkeletonRendezvous" where
  "NewSkeletonRendezvous options' =
     \<lparr>options = foldl (\<lambda>opts opt. opt opts) GetDefaultOptions options',
      Clusters = [], Nodes = [], VirtualNodes = 0\<rparr>"

definition hash :: "'s SkeletonRendezvous \<Rightarrow> string \<Rightarrow> string \<Rightarrow> 64 word" where
  "hash sr target key =
     (let H = hashAlg (options sr)
      in Sum64 H (Write H (Write H (Reset H) target) key))"

section \<open>Failures\<close>

text \<open>
  A slice index out of range panics in Go. A conversion to \<open>int\<close> of a float that is
  infinite or not a number does not panic: the code goes on with a value that depends
  on the platform. The conversions defined below give no value there and stop, with a
  failure of their own; no evaluation in this theory reaches such a conversion.
\<close>

datatype failure = IndexOutOfRange | ImplementationDependent

definition index :: "'a list \<Rightarrow> int \<Rightarrow> failure + 'a" where
  "index xs i =
     (if 0 \<le> i \<and> i < int (length xs) then Inr (xs ! nat i) else Inl IndexOutOfRange)"

section \<open>\<open>strconv.Itoa\<close> and \<open>strconv.Atoi\<close>\<close>

definition digitChar :: "nat \<Rightarrow> char" where
  "digitChar d = char_of (48 + d)"

fun formatDecimal :: "nat \<Rightarrow> string" where
  "formatDecimal n =
     (if n < 10 then [digitChar n] else formatDecimal (n div 10) @ [digitChar (n mod 10)])"

declare formatDecimal.simps [simp del]

definition Itoa :: "int \<Rightarrow> string" where
  "Itoa i = (if i < 0 then CHR ''-'' # formatDecimal (nat (- i)) else formatDecimal (nat i))"

definition isDigit :: "char \<Rightarrow> bool" where
  "isDigit c \<longleftrightarrow> 48 \<le> (of_char c :: nat) \<and> (of_char c :: nat) \<le> 57"

definition digitVal :: "char \<Rightarrow> int" where
  "digitVal c = int (of_char c) - 48"

fun parseDigits :: "int \<Rightarrow> string \<Rightarrow> int option" where
  "parseDigits n [] = Some n"
| "parseDigits n (ch # s) =
     (if isDigit ch then parseDigits (n * 10 + digitVal ch) s else None)"

text \<open>
  \<open>Atoi\<close>: an optional sign, then at least one decimal digit and nothing else; the value
  must fit a 64-bit \<open>int\<close>. \<open>None\<close> is the non-nil error.
\<close>

definition Atoi :: "string \<Rightarrow> int option" where
  "Atoi s =
     (case s of
        [] \<Rightarrow> None
      | c # cs \<Rightarrow>
          (let r = (if c = CHR ''-'' \<or> c = CHR ''+''
                    then (if cs = [] then None
                          else map_option (\<lambda>n. if c = CHR ''-'' then - n else n)
                                 (parseDigits 0 cs))
                    else parseDigits 0 s)
           in case r of
                None \<Rightarrow> None
              | Some n \<Rightarrow> if - (2 ^ 63) \<le> n \<and> n < 2 ^ 63 then Some n else None))"

section \<open>Building the clusters\<close>

text \<open>The first loop of \<open>generateCluster\<close>: the input without its repetitions.\<close>

fun uniqueNodes :: "(string \<Rightarrow> bool) \<Rightarrow> string list \<Rightarrow> string list \<Rightarrow> string list" where
  "uniqueNodes lookup newNodes [] = newNodes"
| "uniqueNodes lookup newNodes (node # nodes) =
     (if \<not> lookup node
      then uniqueNodes (lookup(node := True)) (newNodes @ [node]) nodes
      else uniqueNodes lookup newNodes nodes)"

text \<open>
  \<open>int(math.Ceil(float64(n) / float64(clusterSize)))\<close>. For a cluster size other than 0 the quotient
  is finite and (list lengths being far below \<open>2^53\<close>) its ceiling is the exact one.
  For cluster size 0 the quotient is infinite or not a number.
\<close>

definition clusterAmountOf :: "nat \<Rightarrow> int \<Rightarrow> failure + int" where
  "clusterAmountOf n csize =
     (if csize = 0 then Inl ImplementationDependent else Inr (- ((- int n) div csize)))"

text \<open>The loop that places the new nodes, starting at cluster 0.\<close>

fun fillClusters ::
  "int \<Rightarrow> string list list \<Rightarrow> nat \<Rightarrow> string list \<Rightarrow> failure + string list list" where
  "fillClusters csize cls clusterIndex [] = Inr cls"
| "fillClusters csize cls clusterIndex (node # newNodes) =
     (if clusterIndex < length cls
      then (let cls' = cls[clusterIndex := cls ! clusterIndex @ [node]]
            in fillClusters csize cls'
                 (if csize \<le> int (length (cls' ! clusterIndex))
                  then clusterIndex + 1 else clusterIndex)
                 newNodes)
      else Inl IndexOutOfRange)"

text \<open>The loop that spreads the members of a dropped last cluster.\<close>

fun spreadCluster ::
  "int \<Rightarrow> string list list \<Rightarrow> int \<Rightarrow> string list \<Rightarrow> failure + string list list" where
  "spreadCluster clusterAmount cls spreadClusterIndex [] = Inr cls"
| "spreadCluster clusterAmount cls spreadClusterIndex (node # lastCluster) =
     (case index cls spreadClusterIndex of
        Inl e \<Rightarrow> Inl e
      | Inr c \<Rightarrow>
          spreadCluster clusterAmount (cls[nat spreadClusterIndex := c @ [node]])
            ((spreadClusterIndex + 1) mod clusterAmount) lastCluster)"

text \<open>
  \<open>countVirtualNodes\<close> is \<open>int(math.Ceil(math.Log(c) / math.Log(f)))\<close>. For \<open>c \<ge> 1\<close> and
  \<open>f \<ge> 2\<close> the quotient of the logarithms is taken here as the real one: its ceiling is
  the least \<open>d\<close> with \<open>c \<le> f ^ d\<close>, found by \<open>ceilLog\<close>. The quotient of the code is a
  rounded \<open>float64\<close>. Where \<open>c\<close> is a power \<open>f ^ d\<close> with \<open>d \<ge> 2\<close> it can come out just
  above \<open>d\<close>, and the depth of the code is then \<open>d + 1\<close>, one more than the depth
  defined here: with Go's \<open>math.Log\<close>, 9 clusters and fan-out 3 give
  2.0000000000000004 and depth 3. The evaluations of this theory take the depth of 1,
  2, 3 and 4 clusters at fan-out 3 and of 2 clusters at fan-out 11: there the quotient
  is 0, is 1 (a number divided by itself) or is far from an integer, and the depth
  defined here is the depth of the code. For \<open>c \<ge> 1\<close> and \<open>f = 0\<close> the quotient is a
  zero. In every other case it is infinite or not a number.
\<close>

function ceilLog :: "int \<Rightarrow> int \<Rightarrow> nat \<Rightarrow> int \<Rightarrow> nat" where
  "ceilLog f c d p = (if c \<le> p \<or> f < 2 \<or> p < 1 then d else ceilLog f c (d + 1) (p * f))"
  by pat_completeness auto
termination
proof (relation "measure (\<lambda>(f, c, d, p). nat (c - p))")
  show "wf (measure (\<lambda>(f, c, d, p). nat (c - p)))"
    by simp
next
  fix f c :: int and d :: nat and p :: int
  assume a: "\<not> (c \<le> p \<or> f < 2 \<or> p < 1)"
  then have "p * 2 \<le> p * f"
    by (intro mult_left_mono) auto
  with a have "p < p * f"
    by linarith
  with a show "((f, c, d + 1, p * f), (f, c, d, p)) \<in> measure (\<lambda>(f, c, d, p). nat (c - p))"
    by simp
qed

declare ceilLog.simps [simp del]

definition countVirtualNodes :: "int \<Rightarrow> int \<Rightarrow> failure + int" where
  "countVirtualNodes clusterAmount fanOut' =
     (if 1 \<le> clusterAmount \<and> 2 \<le> fanOut' then Inr (int (ceilLog fanOut' clusterAmount 0 1))
      else if 1 \<le> clusterAmount \<and> fanOut' = 0 then Inr 0
      else Inl ImplementationDependent)"

text \<open>
  The block of \<open>generateCluster\<close> under \<open>if clusterAmount > 1\<close>: a last cluster
  shorter than the minimum is cut off the table and its members are spread over the
  clusters \<open>0, \<dots>, clusterAmount - 2\<close>. The result is the table and the cluster amount.
\<close>

definition mergeLastCluster ::
  "int \<Rightarrow> int \<Rightarrow> string list list \<Rightarrow> failure + string list list \<times> int" where
  "mergeLastCluster minSize clusterAmount cls =
     (if 1 < clusterAmount
      then (case index cls (int (length cls) - 1) of
              Inl e \<Rightarrow> Inl e
            | Inr lastCluster \<Rightarrow>
                if int (length lastCluster) < minSize
                then map_sum id (\<lambda>cls'. (cls', clusterAmount - 1))
                       (spreadCluster (clusterAmount - 1) (butlast cls) 0 lastCluster)
                else Inr (cls, clusterAmount))
      else Inr (cls, clusterAmount))"

text \<open>
  The cluster amount and the depth are the two places where \<open>generateCluster\<close> converts
  a \<open>float64\<close> to \<open>int\<close>, and the only ones where its result depends on the
  floating-point library and on the platform. The methods that build the topology are
  therefore defined once for given conversions, \<open>amountOf\<close> for
  \<open>int(math.Ceil(float64(len(nodes)) / float64(clusterSize)))\<close> and \<open>depthOf\<close> for
  \<open>countVirtualNodes\<close>, and then at the conversions defined above. What is proved for
  all conversions holds whatever the floating-point arithmetic returns, a platform
  value for an infinity included (\<open>Inr\<close> of that value).
\<close>

record conversions =
  amountOf :: "nat \<Rightarrow> int \<Rightarrow> failure + int"
  depthOf :: "int \<Rightarrow> int \<Rightarrow> failure + int"

definition exactConversions :: conversions where
  "exactConversions = \<lparr>amountOf = clusterAmountOf, depthOf = countVirtualNodes\<rparr>"

definition generateClusterWith ::
  "conversions \<Rightarrow> 's SkeletonRendezvous \<Rightarrow> string list \<Rightarrow> failure + 's SkeletonRendezvous" where
  "generateClusterWith conv sr nodes =
     (let newNodes = uniqueNodes (\<lambda>_. False) [] nodes;
          sr1 = sr\<lparr>Nodes := Nodes sr @ newNodes\<rparr>
      in case amountOf conv (length nodes) (clusterSize (options sr)) of
           Inl e \<Rightarrow> Inl e
         | Inr clusterAmount \<Rightarrow>
            (case fillClusters (clusterSize (options sr))
                    (Clusters sr1 @ replicate (nat clusterAmount) []) 0 newNodes of
               Inl e \<Rightarrow> Inl e
             | Inr cls \<Rightarrow>
                (case mergeLastCluster (minClusterSize (options sr)) clusterAmount cls of
                   Inl e \<Rightarrow> Inl e
                 | Inr (cls', clusterAmount') \<Rightarrow>
                    (case depthOf conv clusterAmount' (fanOut (options sr)) of
                       Inl e \<Rightarrow> Inl e
                     | Inr v \<Rightarrow> Inr (sr1\<lparr>Clusters := cls', VirtualNodes := v\<rparr>)))))"

definition SetNodesWith ::
  "conversions \<Rightarrow> 's SkeletonRendezvous \<Rightarrow> string list \<Rightarrow> failure + 's SkeletonRendezvous" where
  "SetNodesWith conv sr nodes = generateClusterWith conv sr nodes"

definition RemoveNodesWith ::
  "conversions \<Rightarrow> 's SkeletonRendezvous \<Rightarrow> string list \<Rightarrow> failure + 's SkeletonRendezvous" where
  "RemoveNodesWith conv sr removedNodes =
     (let deletedNodes = foldl (\<lambda>m removedNode. m(removedNode := True)) (\<lambda>_. False) removedNodes;
          newNodes = filter (\<lambda>node. \<not> deletedNodes node) (Nodes sr)
      in generateClusterWith conv (sr\<lparr>Clusters := []\<rparr>) newNodes)"

definition generateCluster ::
  "'s SkeletonRendezvous \<Rightarrow> string list \<Rightarrow> failure + 's SkeletonRendezvous" where
  "generateCluster sr nodes = generateClusterWith exactConversions sr nodes"

definition SetNodes ::
  "'s SkeletonRendezvous \<Rightarrow> string list \<Rightarrow> failure + 's SkeletonRendezvous" where
  "SetNodes sr nodes = SetNodesWith exactConversions sr nodes"

definition RemoveNodes ::
  "'s SkeletonRendezvous \<Rightarrow> string list \<Rightarrow> failure + 's SkeletonRendezvous" where
  "RemoveNodes sr removedNodes = RemoveNodesWith exactConversions sr removedNodes"

section \<open>Looking a key up\<close>

text \<open>
  The inner loop of \<open>FindNode\<close> at level \<open>i\<close>: the pair of \<open>highestNode\<close> and
  \<open>targetBranch\<close> after the candidates \<open>0, \<dots>, fanOut - 1\<close>.
\<close>

definition branchStep ::
  "'s SkeletonRendezvous \<Rightarrow> string \<Rightarrow> int \<Rightarrow> 64 word \<times> string \<Rightarrow> int \<Rightarrow> 64 word \<times> string" where
  "branchStep sr key i acc j =
     (let hashScore = hash sr (Itoa i @ Itoa j) key
      in if fst acc < hashScore then (hashScore, Itoa j) else acc)"

definition targetBranch :: "'s SkeletonRendezvous \<Rightarrow> string \<Rightarrow> int \<Rightarrow> string" where
  "targetBranch sr key i =
     snd (foldl (branchStep sr key i) (0, '''') [0..fanOut (options sr) - 1])"

text \<open>The outer loop: the branch after the levels \<open>0, \<dots>, VirtualNodes - 1\<close>.\<close>

definition appendTarget :: "'s SkeletonRendezvous \<Rightarrow> string \<Rightarrow> string \<Rightarrow> int \<Rightarrow> string" where
  "appendTarget sr key branch i = branch @ targetBranch sr key i"

definition branchOf :: "'s SkeletonRendezvous \<Rightarrow> string \<Rightarrow> string" where
  "branchOf sr key =
     foldl (appendTarget sr key) '''' [0..VirtualNodes sr - 1]"

text \<open>
  The loop of \<open>selectClusterNodes\<close> over the branch. The branch holds ASCII characters
  only (it is made of \<open>Itoa\<close> outputs), so its runes are its bytes. A character that
  \<open>Atoi\<close> rejects counts 0. \<open>int(math.Pow(fanOut, branchSize))\<close> is taken as the exact
  power.
\<close>

fun branchIndex :: "int \<Rightarrow> int \<Rightarrow> int \<Rightarrow> string \<Rightarrow> int" where
  "branchIndex f currentBrannchIndex branchSize [] = currentBrannchIndex"
| "branchIndex f currentBrannchIndex branchSize (v # branch) =
     branchIndex f
       (currentBrannchIndex
          + f ^ nat branchSize * (case Atoi [v] of None \<Rightarrow> 0 | Some currentVal \<Rightarrow> currentVal))
       (branchSize - 1) branch"

text \<open>
  The result of \<open>selectClusterNodes\<close>: \<open>Inl\<close> is a panic, \<open>Inr None\<close> the return with a
  non-nil error, \<open>Inr (Some nodes)\<close> the return of a cluster.
\<close>

definition selectClusterNodes ::
  "'s SkeletonRendezvous \<Rightarrow> string \<Rightarrow> failure + string list option" where
  "selectClusterNodes sr branch =
     (if length branch = 1
      then (case Atoi branch of
              None \<Rightarrow> Inr None
            | Some branchCluster \<Rightarrow>
                if int (length (Clusters sr)) - 1 < branchCluster
                then map_sum id Some (index (Clusters sr) (branchCluster - 1))
                else map_sum id Some (index (Clusters sr) branchCluster))
      else (let currentBrannchIndex =
                  branchIndex (fanOut (options sr)) 0 (int (length branch) - 1) branch
            in if int (length (Clusters sr)) - 1 < currentBrannchIndex
               then map_sum id Some
                      (index (Clusters sr)
                         (currentBrannchIndex - int (length (Clusters sr)) - 1))
               else map_sum id Some (index (Clusters sr) currentBrannchIndex)))"

definition weightStep ::
  "'s SkeletonRendezvous \<Rightarrow> string \<Rightarrow> 64 word \<times> string \<Rightarrow> string \<Rightarrow> 64 word \<times> string" where
  "weightStep sr key acc node =
     (let nodeScore = hash sr node key
      in if fst acc < nodeScore then (nodeScore, node) else acc)"

definition findHighestRandomWeight ::
  "'s SkeletonRendezvous \<Rightarrow> string \<Rightarrow> string list \<Rightarrow> string" where
  "findHighestRandomWeight sr key nodes = snd (foldl (weightStep sr key) (0, '''') nodes)"

definition FindNode :: "'s SkeletonRendezvous \<Rightarrow> string \<Rightarrow> failure + string" where
  "FindNode sr key =
     (case selectClusterNodes sr (branchOf sr key) of
        Inl e \<Rightarrow> Inl e
      | Inr None \<Rightarrow> Inr ''''
      | Inr (Some nodes) \<Rightarrow> Inr (findHighestRandomWeight sr key nodes))"

section \<open>Sequences of topology updates\<close>

datatype update = SetNodesCall "string list" | RemoveNodesCall "string list"

fun applyUpdate :: "'s SkeletonRendezvous \<Rightarrow> update \<Rightarrow> failure + 's SkeletonRendezvous" where
  "applyUpdate sr (SetNodesCall nodes) = SetNodes sr nodes"
| "applyUpdate sr (RemoveNodesCall nodes) = RemoveNodes sr nodes"

fun applyUpdates ::
  "'s SkeletonRendezvous \<Rightarrow> update list \<Rightarrow> failure + 's SkeletonRendezvous" where
  "applyUpdates sr [] = Inr sr"
| "applyUpdates sr (u # us) =
     (case applyUpdate sr u of Inl e \<Rightarrow> Inl e | Inr sr' \<Rightarrow> applyUpdates sr' us)"

text \<open>
  What a caller observes after a sequence of updates: the tables, the branch computed
  for a key, the cluster that branch resolves to, and the result of \<open>FindNode\<close>. The
  outer \<open>Inl\<close> is a failure of an update, the inner one a failure of the lookup.
\<close>

definition view :: "'s SkeletonRendezvous \<Rightarrow> string list list \<times> string list \<times> int" where
  "view sr = (Clusters sr, Nodes sr, VirtualNodes sr)"

definition viewAfter ::
  "'s SkeletonRendezvous \<Rightarrow> update list \<Rightarrow> failure + string list list \<times> string list \<times> int" where
  "viewAfter sr us = map_sum id view (applyUpdates sr us)"

definition branchAfter :: "'s SkeletonRendezvous \<Rightarrow> update list \<Rightarrow> string \<Rightarrow> failure + string" where
  "branchAfter sr us key = map_sum id (\<lambda>sr'. branchOf sr' key) (applyUpdates sr us)"

definition clusterAfter ::
  "'s SkeletonRendezvous \<Rightarrow> update list \<Rightarrow> string \<Rightarrow> failure + (failure + string list option)" where
  "clusterAfter sr us key =
     map_sum id (\<lambda>sr'. selectClusterNodes sr' (branchOf sr' key)) (applyUpdates sr us)"

definition lookupAfter ::
  "'s SkeletonRendezvous \<Rightarrow> update list \<Rightarrow> string \<Rightarrow> failure + (failure + string)" where
  "lookupAfter sr us key = map_sum id (\<lambda>sr'. FindNode sr' key) (applyUpdates sr us)"

text \<open>
  The same two observations on the result of one update: the cluster a key resolves to
  and the result of \<open>FindNode\<close>.
\<close>

definition clusterIn ::
  "failure + 's SkeletonRendezvous \<Rightarrow> string \<Rightarrow> failure + (failure + string list option)" where
  "clusterIn r key = map_sum id (\<lambda>sr. selectClusterNodes sr (branchOf sr key)) r"

definition lookupIn ::
  "failure + 's SkeletonRendezvous \<Rightarrow> string \<Rightarrow> failure + (failure + string)" where
  "lookupIn r key = map_sum id (\<lambda>sr. FindNode sr key) r"


definition depthCovers :: "'s SkeletonRendezvous \<Rightarrow> bool" where
  "depthCovers sr \<longleftrightarrow>
     int (length (Clusters sr)) \<le> fanOut (options sr) ^ nat (VirtualNodes sr)"

definition registryDistinct :: "'s SkeletonRendezvous \<Rightarrow> bool" where
  "registryDistinct sr \<longleftrightarrow> distinct (Nodes sr)"

definition checkAfter ::
  "'s SkeletonRendezvous \<Rightarrow> update list \<Rightarrow> ('s SkeletonRendezvous \<Rightarrow> bool) \<Rightarrow> failure + bool" where
  "checkAfter sr us P = map_sum id P (applyUpdates sr us)"

section \<open>The partition the specification describes\<close>

text \<open>
  This definition follows the words of the specification, not the code: contiguous
  chunks of the cluster size in registry order, as many as the ceiling of the node
  count over the cluster size; when there is more than one chunk and the last one is
  shorter than the minimum, it is dropped and its members are dealt round-robin, in
  order, to the remaining chunks from chunk 0 on.
\<close>

definition specChunks :: "nat \<Rightarrow> 'a list \<Rightarrow> 'a list list" where
  "specChunks n xs = map (\<lambda>i. take n (drop (i * n) xs)) [0..<(length xs + n - 1) div n]"

text \<open>The first \<open>k\<close> chunks of length \<open>n\<close> of a list, empty ones included.\<close>

definition rowOf :: "nat \<Rightarrow> nat \<Rightarrow> 'a list \<Rightarrow> 'a list list" where
  "rowOf n k xs = map (\<lambda>i. take n (drop (i * n) xs)) [0..<k]"

definition specRedistribute :: "'a list list \<Rightarrow> 'a list \<Rightarrow> 'a list list" where
  "specRedistribute chunks xs =
     map (\<lambda>i. chunks ! i @ map ((!) xs) (filter (\<lambda>k. k mod length chunks = i) [0..<length xs]))
       [0..<length chunks]"

definition specPartition :: "nat \<Rightarrow> nat \<Rightarrow> 'a list \<Rightarrow> 'a list list" where
  "specPartition n m xs =
     (let chunks = specChunks n xs
      in if 1 < length chunks \<and> length (last chunks) < m
         then specRedistribute (butlast chunks) (last chunks) else chunks)"

text \<open>The cluster table is the partition of the registry that the specification describes.\<close>

definition registryPartitioned :: "'s SkeletonRendezvous \<Rightarrow> bool" where
  "registryPartitioned sr \<longleftrightarrow>
     Clusters sr
       = specPartition (nat (clusterSize (options sr))) (nat (minClusterSize (options sr)))
           (Nodes sr)"

section \<open>The instances of the test suite\<close>

definition testSkeleton :: "64 word SkeletonRendezvous" where
  "testSkeleton = NewSkeletonRendezvous [FanOut 3, ClusterSize 2, MinClusterSize 2]"

definition fourNodes :: "string list" where
  "fourNodes = [''jg1'', ''jg2'', ''jg3'', ''jg4'']"

definition sixNodes :: "string list" where
  "sixNodes = [''jg1'', ''jg2'', ''jg3'', ''jg4'', ''jg5'', ''jg6'']"

definition eightNodes :: "string list" where
  "eightNodes = [''jg1'', ''jg2'', ''jg3'', ''jg4'', ''jg5'', ''jg6'', ''jg7'', ''jg8'']"


text \<open>
  Nine bytes whose FNV-1 digest is 0, cut into a one-byte node name and an eight-byte
  key.
\<close>

definition zeroNode :: string where
  "zeroNode = [CHR 0x92]"

definition zeroKey :: string where
  "zeroKey = [CHR 0x06, CHR 0x77, CHR 0x4c, CHR 0xe0, CHR 0x2f, CHR 0x89, CHR 0x2a, CHR 0xd2]"

section \<open>The hash adapter\<close>

lemma New64_streaming: "streaming New64"
  by (simp add: streaming_def New64_def fnvWrite_def)

text \<open>
  Claim C10. The adapter resets the hash and writes the target and then the key, with
  nothing between them. For a streaming hash the digest therefore depends on the
  concatenation only: two pairs with the same concatenation get the same digest, as
  \<open>("1", "23")\<close> and \<open>("12", "3")\<close> do under the default hash.
\<close>

theorem hash_concatenation:
  assumes "streaming (hashAlg (options sr))" and "a @ b = c @ d"
  shows "hash sr a b = hash sr c d"
  using assms by (simp add: hash_def streaming_def Let_def)

theorem hash_concatenation_witness:
  "streaming (hashAlg (options (NewSkeletonRendezvous [])))
   \<and> ''1'' @ ''23'' = ''12'' @ ''3''
   \<and> hash (NewSkeletonRendezvous []) ''1'' ''23'' = hash (NewSkeletonRendezvous []) ''12'' ''3''"
proof -
  have s: "streaming (hashAlg (options (NewSkeletonRendezvous [])))"
    by (simp add: NewSkeletonRendezvous_def GetDefaultOptions_def New64_streaming)
  have e: "''1'' @ ''23'' = ''12'' @ ''3''"
    by simp
  from s e hash_concatenation [OF s e] show ?thesis
    by blast
qed

section \<open>What a rebuild reads and writes\<close>

lemma uniqueNodes_distinct:
  "distinct xs \<Longrightarrow> \<forall>x\<in>set xs. \<not> lookup x \<Longrightarrow> uniqueNodes lookup acc xs = acc @ xs"
proof (induction xs arbitrary: lookup acc)
  case Nil
  show ?case by simp
next
  case (Cons a xs)
  from Cons.prems have "\<forall>x\<in>set xs. \<not> (lookup(a := True)) x"
    by auto
  with Cons.prems have "uniqueNodes (lookup(a := True)) (acc @ [a]) xs = (acc @ [a]) @ xs"
    by (intro Cons.IH) simp_all
  with Cons.prems show ?case
    by simp
qed

lemma deletedNodes_fold:
  "foldl (\<lambda>m removedNode. m(removedNode := True)) m rs x \<longleftrightarrow> m x \<or> x \<in> set rs"
  by (induction rs arbitrary: m) auto




lemma RemoveNodesWith_kept:
  "RemoveNodesWith conv sr removedNodes
     = generateClusterWith conv (sr\<lparr>Clusters := []\<rparr>)
         (filter (\<lambda>node. node \<notin> set removedNodes) (Nodes sr))"
  by (simp add: RemoveNodesWith_def Let_def deletedNodes_fold)










text \<open>The observations after a sequence of updates, in terms of those on one result.\<close>

lemma clusterAfter_one: "clusterAfter sr [u] key = clusterIn (applyUpdate sr u) key"
  by (cases "applyUpdate sr u") (simp_all add: clusterAfter_def clusterIn_def)

lemma lookupAfter_one: "lookupAfter sr [u] key = lookupIn (applyUpdate sr u) key"
  by (cases "applyUpdate sr u") (simp_all add: lookupAfter_def lookupIn_def)

lemma clusterAfter_Cons:
  "applyUpdate sr u = Inr sr' \<Longrightarrow> clusterAfter sr (u # us) key = clusterAfter sr' us key"
  by (simp add: clusterAfter_def)

lemma lookupAfter_Cons:
  "applyUpdate sr u = Inr sr' \<Longrightarrow> lookupAfter sr (u # us) key = lookupAfter sr' us key"
  by (simp add: lookupAfter_def)

section \<open>The partition built on an empty table\<close>

text \<open>
  When the cluster table is empty and the input has no repetition, the loops of
  \<open>generateCluster\<close> build the partition of the specification: the fill loop leaves
  the chunks, the spread loop deals the members of a short last chunk round-robin, and
  the power of the fan-out at the depth covers the number of clusters. The lemmas of
  this section are about the conversions defined above, the exact ones.
\<close>

lemma nat_ceil_div:
  assumes "0 < n"
  shows "(l + n - 1) div n = (if l mod n = 0 then l div n else Suc (l div n))"
proof -
  let ?q = "l div n" and ?r = "l mod n"
  have l: "l = n * ?q + ?r"
    by simp
  have r: "?r < n"
    using assms by simp
  have s: "n * Suc ?q = n * ?q + n" and s2: "n * Suc (Suc ?q) = n * ?q + n + n"
    by simp_all
  show ?thesis
  proof (cases "?r = 0")
    case True
    have "(l + n - 1) div n = ?q"
    proof (rule div_nat_eqI)
      show "n * ?q \<le> l + n - 1" using l assms by linarith
      show "l + n - 1 < n * Suc ?q" unfolding s using l True assms by linarith
    qed
    with True show ?thesis by simp
  next
    case False
    have "(l + n - 1) div n = Suc ?q"
    proof (rule div_nat_eqI)
      show "n * Suc ?q \<le> l + n - 1" unfolding s using l False by linarith
      show "l + n - 1 < n * Suc (Suc ?q)" unfolding s2 using l r by linarith
    qed
    with False show ?thesis by simp
  qed
qed

lemma ceil_div_nat:
  assumes "0 < n"
  shows "- ((- int l) div int n) = int ((l + n - 1) div n)"
proof -
  have m: "int l mod int n = 0 \<longleftrightarrow> l mod n = 0"
    by (simp add: of_nat_mod [symmetric] del: of_nat_mod)
  have d: "int l div int n = int (l div n)"
    by (rule zdiv_int [symmetric])
  have "(- int l) div int n
      = (if l mod n = 0 then - int (l div n) else - int (l div n) - 1)"
    using assms unfolding m [symmetric] d [symmetric] by (simp add: zdiv_zminus1_eq_if)
  then show ?thesis
    unfolding nat_ceil_div [OF assms] by simp
qed

lemma Suc_div_eq:
  "Suc p div n = (if Suc (p mod n) = n then Suc (p div n) else p div n)"
  by (simp add: div_Suc mod_Suc)

lemma rowOf_length [simp]: "length (rowOf n k xs) = k"
  by (simp add: rowOf_def)

lemma rowOf_nth: "j < k \<Longrightarrow> rowOf n k xs ! j = take n (drop (j * n) xs)"
  by (simp add: rowOf_def)

lemma rowOf_snoc:
  assumes n: "0 < n" and i: "length pre div n < k"
  shows "(rowOf n k pre)[length pre div n := rowOf n k pre ! (length pre div n) @ [x]]
       = rowOf n k (pre @ [x])"
proof (rule nth_equalityI)
  show "length ((rowOf n k pre)[length pre div n := rowOf n k pre ! (length pre div n) @ [x]])
      = length (rowOf n k (pre @ [x]))"
    by simp
next
  fix j
  let ?i = "length pre div n"
  assume "j < length ((rowOf n k pre)[?i := rowOf n k pre ! ?i @ [x]])"
  then have j: "j < k"
    by simp
  have le: "?i * n \<le> length pre"
    by simp
  have m: "length pre - ?i * n = length pre mod n"
    by (simp add: minus_div_mult_eq_mod)
  have r: "length pre mod n < n"
    using n by simp
  show "(rowOf n k pre)[?i := rowOf n k pre ! ?i @ [x]] ! j = rowOf n k (pre @ [x]) ! j"
  proof (cases "j = ?i")
    case True
    have "take n (drop (?i * n) pre) @ [x] = take n (drop (?i * n) (pre @ [x]))"
      using le m r by simp
    with True i show ?thesis
      by (simp add: rowOf_nth)
  next
    case False
    show ?thesis
    proof (cases "j < ?i")
      case True
      then have "Suc j \<le> ?i"
        by simp
      then have "Suc j * n \<le> ?i * n"
        by (rule mult_le_mono1)
      moreover have "Suc j * n = j * n + n"
        by simp
      ultimately have "j * n + n \<le> length pre"
        using le by linarith
      then have "take n (drop (j * n) (pre @ [x])) = take n (drop (j * n) pre)"
        by simp
      with False j show ?thesis
        by (simp add: rowOf_nth)
    next
      case False
      with \<open>j \<noteq> ?i\<close> have "Suc ?i \<le> j"
        by simp
      then have "Suc ?i * n \<le> j * n"
        by (rule mult_le_mono1)
      moreover have "length pre < Suc ?i * n"
        using n by (simp add: dividend_less_div_times)
      ultimately have "length pre < j * n"
        by simp
      then have "take n (drop (j * n) (pre @ [x])) = take n (drop (j * n) pre)"
        by simp
      with \<open>j \<noteq> ?i\<close> j show ?thesis
        by (simp add: rowOf_nth)
    qed
  qed
qed

lemma rowOf_snoc_length:
  assumes n: "0 < n" and i: "length pre div n < k"
  shows "length (rowOf n k (pre @ [x]) ! (length pre div n)) = Suc (length pre mod n)"
proof -
  have m: "length pre - length pre div n * n = length pre mod n"
    by (simp add: minus_div_mult_eq_mod)
  have "length pre mod n < n"
    using n by simp
  with m i show ?thesis
    by (simp add: rowOf_nth Suc_diff_le)
qed

lemma fillClusters_rowOf:
  assumes n: "0 < n"
  shows "length pre + length rest \<le> k * n \<Longrightarrow>
         fillClusters (int n) (rowOf n k pre) (length pre div n) rest
           = Inr (rowOf n k (pre @ rest))"
proof (induction rest arbitrary: pre)
  case Nil
  show ?case by simp
next
  case (Cons x rest)
  let ?i = "length pre div n"
  from Cons.prems have "length pre < k * n"
    by simp
  then have i: "?i < k"
    by (rule less_mult_imp_div_less)
  have "length pre mod n < n"
    using n by simp
  then have idx: "(if n \<le> length (rowOf n k (pre @ [x]) ! ?i) then Suc ?i else ?i)
                = length (pre @ [x]) div n"
    by (simp add: rowOf_snoc_length [OF n i] Suc_div_eq)
  from Cons.prems have "length (pre @ [x]) + length rest \<le> k * n"
    by simp
  then have ih: "fillClusters (int n) (rowOf n k (pre @ [x])) (length (pre @ [x]) div n) rest
           = Inr (rowOf n k ((pre @ [x]) @ rest))"
    by (rule Cons.IH)
  have "fillClusters (int n) (rowOf n k pre) ?i (x # rest)
      = fillClusters (int n) (rowOf n k (pre @ [x]))
          (if n \<le> length (rowOf n k (pre @ [x]) ! ?i) then Suc ?i else ?i) rest"
    using i by (simp add: Let_def rowOf_snoc [OF n i])
  also have "\<dots> = fillClusters (int n) (rowOf n k (pre @ [x])) (length (pre @ [x]) div n) rest"
    by (simp only: idx)
  also have "\<dots> = Inr (rowOf n k (pre @ x # rest))"
    using ih by simp
  finally show ?case .
qed

lemma specRedistribute_length [simp]: "length (specRedistribute cls xs) = length cls"
  by (simp add: specRedistribute_def)

lemma specRedistribute_nth:
  "j < length cls \<Longrightarrow>
   specRedistribute cls xs ! j
     = cls ! j @ map ((!) xs) (filter (\<lambda>k. k mod length cls = j) [0..<length xs])"
  by (simp add: specRedistribute_def)

lemma specRedistribute_Nil [simp]: "specRedistribute cls [] = cls"
  by (simp add: specRedistribute_def map_nth)

lemma specRedistribute_snoc:
  assumes m: "0 < length cls"
  shows "(specRedistribute cls pre)
           [length pre mod length cls :=
              specRedistribute cls pre ! (length pre mod length cls) @ [x]]
       = specRedistribute cls (pre @ [x])"
proof (rule nth_equalityI)
  show "length ((specRedistribute cls pre)
           [length pre mod length cls :=
              specRedistribute cls pre ! (length pre mod length cls) @ [x]])
      = length (specRedistribute cls (pre @ [x]))"
    by simp
next
  fix j
  let ?m = "length cls" and ?p = "length pre"
  assume "j < length ((specRedistribute cls pre)
           [?p mod ?m := specRedistribute cls pre ! (?p mod ?m) @ [x]])"
  then have j: "j < ?m"
    by simp
  have old: "map ((!) (pre @ [x])) (filter (\<lambda>k. k mod ?m = j) [0..<?p])
           = map ((!) pre) (filter (\<lambda>k. k mod ?m = j) [0..<?p])"
    by (rule map_cong) (auto simp: nth_append)
  have new: "specRedistribute cls (pre @ [x]) ! j
           = specRedistribute cls pre ! j @ (if ?p mod ?m = j then [x] else [])"
    using j by (simp add: specRedistribute_nth old)
  show "(specRedistribute cls pre)
           [?p mod ?m := specRedistribute cls pre ! (?p mod ?m) @ [x]] ! j
      = specRedistribute cls (pre @ [x]) ! j"
    using j by (simp add: new nth_list_update)
qed

lemma spreadCluster_specRedistribute:
  assumes m: "0 < length cls"
  shows "spreadCluster (int (length cls)) (specRedistribute cls pre)
           (int (length pre mod length cls)) rest
       = Inr (specRedistribute cls (pre @ rest))"
proof (induction rest arbitrary: pre)
  case Nil
  show ?case by simp
next
  case (Cons x rest)
  let ?m = "length cls" and ?p = "length pre"
  have r: "?p mod ?m < ?m"
    using m by simp
  have i: "index (specRedistribute cls pre) (int (?p mod ?m))
         = Inr (specRedistribute cls pre ! (?p mod ?m))"
    using r by (simp add: index_def)
  have nxt: "(int (?p mod ?m) + 1) mod int ?m = int (length (pre @ [x]) mod ?m)"
  proof -
    have "(int (?p mod ?m) + 1) mod int ?m = int (Suc (?p mod ?m) mod ?m)"
      by (simp add: zmod_int add.commute)
    then show ?thesis
      by (simp add: mod_Suc_eq)
  qed
  have "spreadCluster (int ?m) (specRedistribute cls pre) (int (?p mod ?m)) (x # rest)
      = spreadCluster (int ?m) (specRedistribute cls (pre @ [x]))
          ((int (?p mod ?m) + 1) mod int ?m) rest"
    by (simp add: i specRedistribute_snoc [OF m])
  also have "\<dots> = spreadCluster (int ?m) (specRedistribute cls (pre @ [x]))
                     (int (length (pre @ [x]) mod ?m)) rest"
    by (simp only: nxt)
  also have "\<dots> = Inr (specRedistribute cls ((pre @ [x]) @ rest))"
    by (rule Cons.IH)
  finally show ?case
    by simp
qed

lemma ceilLog_stop: "c \<le> p \<Longrightarrow> ceilLog f c d p = d"
  by (simp add: ceilLog.simps [of f c d p])

lemma ceilLog_step:
  "\<not> c \<le> p \<Longrightarrow> 2 \<le> f \<Longrightarrow> 1 \<le> p \<Longrightarrow> ceilLog f c d p = ceilLog f c (d + 1) (p * f)"
  by (simp add: ceilLog.simps [of f c d p])

lemma ceilLog_covers:
  "2 \<le> f \<Longrightarrow> 1 \<le> p \<Longrightarrow> p = f ^ d \<Longrightarrow> c \<le> f ^ ceilLog f c d p"
proof (induction f c d p rule: ceilLog.induct)
  case (1 f c d p)
  show ?case
  proof (cases "c \<le> p")
    case True
    then have "ceilLog f c d p = d"
      by (rule ceilLog_stop)
    with True "1.prems" show ?thesis
      by simp
  next
    case False
    from "1.prems"(1,2) have "p * 1 \<le> p * f"
      by (intro mult_left_mono) auto
    with "1.prems"(2) have "1 \<le> p * f"
      by linarith
    moreover from "1.prems"(3) have "p * f = f ^ (d + 1)"
      by simp
    moreover from False "1.prems"(1,2) have "\<not> (c \<le> p \<or> f < 2 \<or> p < 1)"
      by linarith
    ultimately have "c \<le> f ^ ceilLog f c (d + 1) (p * f)"
      using "1.prems"(1) by (intro "1.IH")
    moreover have "ceilLog f c d p = ceilLog f c (d + 1) (p * f)"
      using False "1.prems" by (intro ceilLog_step)
    ultimately show ?thesis
      by simp
  qed
qed

text \<open>
  \<open>ceilLog\<close> returns the least exponent that covers: the ceiling of the real quotient.
  The depth of the code can be one more (see \<open>countVirtualNodes\<close>); the lemmas on the
  topology below state the covering only.
\<close>

lemma ceilLog_minimal:
  "2 \<le> f \<Longrightarrow> 1 \<le> p \<Longrightarrow> p = f ^ d \<Longrightarrow> \<forall>e<d. f ^ e < c \<Longrightarrow>
   \<forall>e<ceilLog f c d p. f ^ e < c"
proof (induction f c d p rule: ceilLog.induct)
  case (1 f c d p)
  show ?case
  proof (cases "c \<le> p")
    case True
    then have "ceilLog f c d p = d"
      by (rule ceilLog_stop)
    with "1.prems" show ?thesis
      by simp
  next
    case False
    from "1.prems"(1,2) have "p * 1 \<le> p * f"
      by (intro mult_left_mono) auto
    with "1.prems"(2) have "1 \<le> p * f"
      by linarith
    moreover from "1.prems"(3) have "p * f = f ^ (d + 1)"
      by simp
    moreover from False "1.prems"(3,4) have "\<forall>e<d + 1. f ^ e < c"
      by (auto simp: less_Suc_eq)
    moreover from False "1.prems"(1,2) have "\<not> (c \<le> p \<or> f < 2 \<or> p < 1)"
      by linarith
    ultimately have "\<forall>e<ceilLog f c (d + 1) (p * f). f ^ e < c"
      using "1.prems"(1) by (intro "1.IH")
    moreover have "ceilLog f c d p = ceilLog f c (d + 1) (p * f)"
      using False "1.prems" by (intro ceilLog_step)
    ultimately show ?thesis
      by simp
  qed
qed

lemma countVirtualNodes_covers:
  assumes "1 \<le> c" "2 \<le> f"
  shows "\<exists>v. countVirtualNodes c f = Inr (int v) \<and> c \<le> f ^ v"
proof -
  have "c \<le> f ^ ceilLog f c 0 1"
    using assms by (intro ceilLog_covers) simp_all
  then show ?thesis
    using assms by (simp add: countVirtualNodes_def)
qed

lemma ceil_times_covers:
  fixes l n :: nat
  assumes "0 < n"
  shows "l \<le> (l + n - 1) div n * n"
proof (cases "l mod n = 0")
  case True
  moreover have "l div n * n + l mod n = l"
    by (rule div_mult_mod_eq)
  ultimately have "(l + n - 1) div n * n = l"
    unfolding nat_ceil_div [OF assms] by simp
  then show ?thesis
    by simp
next
  case False
  have "l = l div n * n + l mod n"
    by simp
  moreover have "l mod n < n"
    using assms by simp
  ultimately have "l \<le> l div n * n + n"
    by linarith
  moreover from False have "(l + n - 1) div n * n = l div n * n + n"
    unfolding nat_ceil_div [OF assms] by simp
  ultimately show ?thesis
    by simp
qed

lemma rowOf_Nil: "rowOf n k [] = replicate k []"
  by (simp add: rowOf_def map_replicate_const)

lemma fillClusters_fresh:
  assumes "0 < n"
  shows "fillClusters (int n) (replicate ((length nodes + n - 1) div n) []) 0 nodes
       = Inr (specChunks n nodes)"
proof -
  have "length ([] :: string list) + length nodes \<le> (length nodes + n - 1) div n * n"
    using ceil_times_covers [OF assms, of "length nodes"] by simp
  then have "fillClusters (int n) (rowOf n ((length nodes + n - 1) div n) [])
          (length ([] :: string list) div n) nodes
      = Inr (rowOf n ((length nodes + n - 1) div n) ([] @ nodes))"
    by (rule fillClusters_rowOf [OF assms])
  then show ?thesis
    unfolding rowOf_Nil by (simp add: specChunks_def rowOf_def)
qed

lemma spreadCluster_fresh:
  assumes "0 < length cls"
  shows "spreadCluster (int (length cls)) cls 0 lastCluster
       = Inr (specRedistribute cls lastCluster)"
  using spreadCluster_specRedistribute [OF assms, of "[]" lastCluster] by simp

lemma specChunks_length [simp]: "length (specChunks n xs) = (length xs + n - 1) div n"
  by (simp add: specChunks_def)

lemma mergeLastCluster_fresh:
  assumes k: "int (length chunks) = k" and ne: "chunks \<noteq> []"
  shows "mergeLastCluster m k chunks
       = (let cls' = (if 1 < length chunks \<and> length (last chunks) < nat m
                      then specRedistribute (butlast chunks) (last chunks) else chunks)
          in Inr (cls', int (length cls')))"
proof (cases "1 < k")
  case False
  with k show ?thesis
    by (auto simp: Let_def mergeLastCluster_def)
next
  case True
  with k have l: "1 < length chunks"
    by linarith
  have i: "index chunks (int (length chunks) - 1) = Inr (last chunks)"
    using ne l by (simp add: index_def last_conv_nth nat_diff_distrib')
  show ?thesis
  proof (cases "int (length (last chunks)) < m")
    case False
    then have "\<not> length (last chunks) < nat m"
      by linarith
    with False True k i show ?thesis
      by (simp add: Let_def mergeLastCluster_def)
  next
    case short: True
    then have s: "length (last chunks) < nat m"
      by linarith
    have b: "0 < length (butlast chunks)" and kb: "k - 1 = int (length (butlast chunks))"
      using l k by simp_all
    have "spreadCluster (k - 1) (butlast chunks) 0 (last chunks)
        = Inr (specRedistribute (butlast chunks) (last chunks))"
      unfolding kb by (rule spreadCluster_fresh [OF b])
    with short s True l i kb show ?thesis
      by (simp add: Let_def mergeLastCluster_def)
  qed
qed

lemma generateCluster_fresh:
  assumes c: "Clusters sr = []" and d: "distinct nodes" and ne: "nodes \<noteq> []"
    and cs: "0 < clusterSize (options sr)" and f: "2 \<le> fanOut (options sr)"
  shows "\<exists>sr'. generateCluster sr nodes = Inr sr'
           \<and> options sr' = options sr \<and> Nodes sr' = Nodes sr @ nodes
           \<and> Clusters sr'
               = specPartition (nat (clusterSize (options sr))) (nat (minClusterSize (options sr)))
                   nodes
           \<and> Clusters sr' \<noteq> []
           \<and> int (length (Clusters sr')) \<le> fanOut (options sr) ^ nat (VirtualNodes sr')"
proof -
  define n where "n = nat (clusterSize (options sr))"
  define m where "m = minClusterSize (options sr)"
  define k where "k = (length nodes + n - 1) div n"
  define chunks where "chunks = specChunks n nodes"
  define P where "P = specPartition n (nat m) nodes"
  have n: "0 < n" and cn: "clusterSize (options sr) = int n"
    using cs by (simp_all add: n_def)
  have u: "uniqueNodes (\<lambda>_. False) [] nodes = nodes"
    using uniqueNodes_distinct [OF d, of "\<lambda>_. False" "[]"] by simp
  have ca: "clusterAmountOf (length nodes) (int n) = Inr (int k)"
    using n by (simp add: clusterAmountOf_def k_def ceil_div_nat)
  have "length nodes \<le> k * n"
    unfolding k_def by (rule ceil_times_covers [OF n])
  with ne have k: "1 \<le> k"
    by (cases k) simp_all
  have lc: "length chunks = k"
    by (simp add: chunks_def k_def)
  with k have cne: "chunks \<noteq> []"
    by auto
  have fill: "fillClusters (int n) (replicate k []) 0 nodes = Inr chunks"
    unfolding k_def chunks_def by (rule fillClusters_fresh [OF n])
  have Pdef: "P = (if 1 < length chunks \<and> length (last chunks) < nat m
                   then specRedistribute (butlast chunks) (last chunks) else chunks)"
    by (simp add: P_def specPartition_def chunks_def Let_def)
  have "length P = (if 1 < length chunks \<and> length (last chunks) < nat m
                    then length chunks - 1 else length chunks)"
    by (simp add: Pdef)
  with k lc have "0 < length P"
    by (simp split: if_splits)
  then have Pne: "P \<noteq> []"
    by auto
  then have "1 \<le> int (length P)"
    by (cases P) simp_all
  from countVirtualNodes_covers [OF this f]
  obtain v where v: "countVirtualNodes (int (length P)) (fanOut (options sr)) = Inr (int v)"
    and cov: "int (length P) \<le> fanOut (options sr) ^ v"
    by blast
  have mid: "mergeLastCluster m (int k) chunks = Inr (P, int (length P))"
    using mergeLastCluster_fresh [of chunks "int k" m] lc cne by (simp add: Pdef Let_def)
  have "generateCluster sr nodes
      = Inr (sr\<lparr>Nodes := Nodes sr @ nodes, Clusters := P, VirtualNodes := int v\<rparr>)"
    unfolding generateCluster_def generateClusterWith_def exactConversions_def Let_def
      conversions.simps u cn ca c m_def [symmetric]
    by (simp add: c fill mid v del: of_nat_less_iff)
  with cov Pne show ?thesis
    by (simp add: P_def n_def m_def)
qed

lemma SetNodes_new_instance:
  assumes "Clusters sr = []" "Nodes sr = []" "distinct nodes" "nodes \<noteq> []"
    and "0 < clusterSize (options sr)" "2 \<le> fanOut (options sr)"
  shows "\<exists>sr'. SetNodes sr nodes = Inr sr' \<and> Nodes sr' = nodes
           \<and> registryPartitioned sr' \<and> registryDistinct sr' \<and> depthCovers sr'"
proof -
  from generateCluster_fresh [OF assms(1,3,4,5,6)]
  obtain sr' where "generateCluster sr nodes = Inr sr'" "options sr' = options sr"
    "Nodes sr' = Nodes sr @ nodes"
    "Clusters sr'
       = specPartition (nat (clusterSize (options sr))) (nat (minClusterSize (options sr))) nodes"
    "int (length (Clusters sr')) \<le> fanOut (options sr) ^ nat (VirtualNodes sr')"
    by blast
  with assms(2,3) show ?thesis
    by (simp add: SetNodes_def SetNodesWith_def generateCluster_def registryPartitioned_def
        registryDistinct_def depthCovers_def)
qed

lemma RemoveNodes_rebuild:
  assumes "distinct (Nodes sr)"
    and "filter (\<lambda>node. node \<notin> set removedNodes) (Nodes sr) \<noteq> []"
    and "0 < clusterSize (options sr)" "2 \<le> fanOut (options sr)"
  shows "\<exists>sr'. RemoveNodes sr removedNodes = Inr sr'
           \<and> Nodes sr' = Nodes sr @ filter (\<lambda>node. node \<notin> set removedNodes) (Nodes sr)
           \<and> Clusters sr'
               = specPartition (nat (clusterSize (options sr))) (nat (minClusterSize (options sr)))
                   (filter (\<lambda>node. node \<notin> set removedNodes) (Nodes sr))
           \<and> depthCovers sr'"
proof -
  let ?kept = "filter (\<lambda>node. node \<notin> set removedNodes) (Nodes sr)"
  have r: "RemoveNodes sr removedNodes = generateCluster (sr\<lparr>Clusters := []\<rparr>) ?kept"
    by (simp add: RemoveNodes_def generateCluster_def RemoveNodesWith_kept)
  have "distinct ?kept"
    using assms(1) by simp
  from generateCluster_fresh [of "sr\<lparr>Clusters := []\<rparr>" ?kept, OF _ this assms(2)] assms(3,4)
  obtain sr' where "generateCluster (sr\<lparr>Clusters := []\<rparr>) ?kept = Inr sr'"
    "options sr' = options sr" "Nodes sr' = Nodes sr @ ?kept"
    "Clusters sr'
       = specPartition (nat (clusterSize (options sr))) (nat (minClusterSize (options sr))) ?kept"
    "int (length (Clusters sr')) \<le> fanOut (options sr) ^ nat (VirtualNodes sr')"
    by auto
  with r show ?thesis
    by (simp add: depthCovers_def)
qed

section \<open>Selection by greatest score\<close>

text \<open>
  Both selection loops keep a running maximum that starts at 0 and is replaced on a
  strictly greater score. When some score is not 0 the result is the first candidate
  of greatest score; when every score is 0 nothing is selected.
\<close>

lemma argmax_fold:
  fixes sc :: "'a \<Rightarrow> 64 word" and lb :: "'a \<Rightarrow> 'b"
  assumes step: "\<And>acc x. step acc x = (if fst acc < sc x then (sc x, lb x) else acc)"
  shows "if \<forall>x\<in>set xs. sc x = 0 then foldl step (0, e) xs = (0, e)
         else \<exists>i<length xs. foldl step (0, e) xs = (sc (xs ! i), lb (xs ! i))
                \<and> (\<forall>j<length xs. sc (xs ! j) \<le> sc (xs ! i))
                \<and> (\<forall>j<i. sc (xs ! j) < sc (xs ! i))"
proof (induction xs rule: rev_induct)
  case Nil
  show ?case by simp
next
  case (snoc x xs)
  show ?case
  proof (cases "\<forall>y\<in>set xs. sc y = 0")
    case True
    with snoc have r: "foldl step (0, e) xs = (0, e)"
      by simp
    show ?thesis
    proof (cases "sc x = 0")
      case True
      with \<open>\<forall>y\<in>set xs. sc y = 0\<close> r show ?thesis
        by (simp add: step)
    next
      case False
      then have pos: "0 < sc x"
        by (simp add: word_neq_0_conv)
      have "\<forall>j<length xs. sc (xs ! j) = 0"
        using True by simp
      with pos have "(\<forall>j<length (xs @ [x]). sc ((xs @ [x]) ! j) \<le> sc x)
                   \<and> (\<forall>j<length xs. sc ((xs @ [x]) ! j) < sc x)"
        by (auto simp: nth_append)
      moreover have "foldl step (0, e) (xs @ [x]) = (sc x, lb x)"
        using r pos by (simp add: step)
      ultimately have "\<exists>i<length (xs @ [x]).
          foldl step (0, e) (xs @ [x]) = (sc ((xs @ [x]) ! i), lb ((xs @ [x]) ! i))
          \<and> (\<forall>j<length (xs @ [x]). sc ((xs @ [x]) ! j) \<le> sc ((xs @ [x]) ! i))
          \<and> (\<forall>j<i. sc ((xs @ [x]) ! j) < sc ((xs @ [x]) ! i))"
        by (intro exI [of _ "length xs"]) simp
      moreover have "\<not> (\<forall>y\<in>set (xs @ [x]). sc y = 0)"
        using False by simp
      ultimately show ?thesis
        by (simp only: if_False)
    qed
  next
    case False
    with snoc obtain i where i: "i < length xs"
      and r: "foldl step (0, e) xs = (sc (xs ! i), lb (xs ! i))"
      and mx: "\<forall>j<length xs. sc (xs ! j) \<le> sc (xs ! i)"
      and fst: "\<forall>j<i. sc (xs ! j) < sc (xs ! i)"
      by auto
    have nz: "\<not> (\<forall>y\<in>set (xs @ [x]). sc y = 0)"
      using False by auto
    show ?thesis
    proof (cases "sc (xs ! i) < sc x")
      case True
      with mx have "(\<forall>j<length (xs @ [x]). sc ((xs @ [x]) ! j) \<le> sc x)
                  \<and> (\<forall>j<length xs. sc ((xs @ [x]) ! j) < sc x)"
        by (auto simp: nth_append less_Suc_eq intro: order.strict_implies_order
            order.strict_trans1)
      moreover have "foldl step (0, e) (xs @ [x]) = (sc x, lb x)"
        using r True by (simp add: step)
      ultimately have "\<exists>i<length (xs @ [x]).
          foldl step (0, e) (xs @ [x]) = (sc ((xs @ [x]) ! i), lb ((xs @ [x]) ! i))
          \<and> (\<forall>j<length (xs @ [x]). sc ((xs @ [x]) ! j) \<le> sc ((xs @ [x]) ! i))
          \<and> (\<forall>j<i. sc ((xs @ [x]) ! j) < sc ((xs @ [x]) ! i))"
        by (intro exI [of _ "length xs"]) simp
      with nz show ?thesis
        by (simp only: if_False)
    next
      case False
      then have le: "sc x \<le> sc (xs ! i)"
        by simp
      have "foldl step (0, e) (xs @ [x]) = (sc (xs ! i), lb (xs ! i))"
        using r False by (simp add: step)
      moreover have "\<forall>j<length (xs @ [x]). sc ((xs @ [x]) ! j) \<le> sc (xs ! i)"
        using mx le by (auto simp: nth_append less_Suc_eq)
      moreover have "\<forall>j<i. sc ((xs @ [x]) ! j) < sc (xs ! i)"
        using fst i by (auto simp: nth_append)
      ultimately have "\<exists>i<length (xs @ [x]).
          foldl step (0, e) (xs @ [x]) = (sc ((xs @ [x]) ! i), lb ((xs @ [x]) ! i))
          \<and> (\<forall>j<length (xs @ [x]). sc ((xs @ [x]) ! j) \<le> sc ((xs @ [x]) ! i))
          \<and> (\<forall>j<i. sc ((xs @ [x]) ! j) < sc ((xs @ [x]) ! i))"
        using i by (intro exI [of _ i]) (simp add: nth_append)
      with nz show ?thesis
        by (simp only: if_False)
    qed
  qed
qed

lemma findHighestRandomWeight_argmax:
  assumes "\<exists>node\<in>set nodes. hash sr node key \<noteq> 0"
  shows "\<exists>i<length nodes. findHighestRandomWeight sr key nodes = nodes ! i
           \<and> (\<forall>j<length nodes. hash sr (nodes ! j) key \<le> hash sr (nodes ! i) key)
           \<and> (\<forall>j<i. hash sr (nodes ! j) key < hash sr (nodes ! i) key)"
proof -
  have "weightStep sr key acc node
      = (if fst acc < hash sr node key then (hash sr node key, node) else acc)" for acc node
    by (simp add: weightStep_def)
  from argmax_fold [of "weightStep sr key" "\<lambda>node. hash sr node key" "\<lambda>node. node" nodes "''''",
      OF this]
  have "if \<forall>node\<in>set nodes. hash sr node key = 0
        then foldl (weightStep sr key) (0, '''') nodes = (0, '''')
        else \<exists>i<length nodes.
               foldl (weightStep sr key) (0, '''') nodes = (hash sr (nodes ! i) key, nodes ! i)
               \<and> (\<forall>j<length nodes. hash sr (nodes ! j) key \<le> hash sr (nodes ! i) key)
               \<and> (\<forall>j<i. hash sr (nodes ! j) key < hash sr (nodes ! i) key)" .
  moreover have "\<not> (\<forall>node\<in>set nodes. hash sr node key = 0)"
    using assms by simp
  ultimately obtain i where "i < length nodes"
    and "foldl (weightStep sr key) (0, '''') nodes = (hash sr (nodes ! i) key, nodes ! i)"
    and "\<forall>j<length nodes. hash sr (nodes ! j) key \<le> hash sr (nodes ! i) key"
    and "\<forall>j<i. hash sr (nodes ! j) key < hash sr (nodes ! i) key"
    by (simp only: if_False) blast
  then show ?thesis
    unfolding findHighestRandomWeight_def by (intro exI [of _ i]) simp
qed

lemma findHighestRandomWeight_no_score:
  assumes "\<forall>node\<in>set nodes. hash sr node key = 0"
  shows "findHighestRandomWeight sr key nodes = ''''"
proof -
  have "weightStep sr key acc node
      = (if fst acc < hash sr node key then (hash sr node key, node) else acc)" for acc node
    by (simp add: weightStep_def)
  from argmax_fold [of "weightStep sr key" "\<lambda>node. hash sr node key" "\<lambda>node. node" nodes "''''",
      OF this] assms
  show ?thesis
    by (simp add: findHighestRandomWeight_def)
qed

lemma upto_nth_nat: "k < nat f \<Longrightarrow> [0..f - 1] ! k = int k"
  by (simp add: nth_upto)

lemma upto_length_nat: "length [0..f - 1] = nat f"
  by simp

lemma targetBranch_fold:
  "if \<forall>j\<in>set [0..fanOut (options sr) - 1]. hash sr (Itoa i @ Itoa j) key = 0
   then foldl (branchStep sr key i) (0, '''') [0..fanOut (options sr) - 1] = (0, '''')
   else \<exists>k<length [0..fanOut (options sr) - 1].
          foldl (branchStep sr key i) (0, '''') [0..fanOut (options sr) - 1]
            = (hash sr (Itoa i @ Itoa ([0..fanOut (options sr) - 1] ! k)) key,
               Itoa ([0..fanOut (options sr) - 1] ! k))
          \<and> (\<forall>j<length [0..fanOut (options sr) - 1].
                hash sr (Itoa i @ Itoa ([0..fanOut (options sr) - 1] ! j)) key
                  \<le> hash sr (Itoa i @ Itoa ([0..fanOut (options sr) - 1] ! k)) key)
          \<and> (\<forall>j<k. hash sr (Itoa i @ Itoa ([0..fanOut (options sr) - 1] ! j)) key
                  < hash sr (Itoa i @ Itoa ([0..fanOut (options sr) - 1] ! k)) key)"
proof -
  have "branchStep sr key i acc j
      = (if fst acc < hash sr (Itoa i @ Itoa j) key
         then (hash sr (Itoa i @ Itoa j) key, Itoa j) else acc)" for acc j
    by (simp add: branchStep_def)
  from argmax_fold [of "branchStep sr key i" "\<lambda>j. hash sr (Itoa i @ Itoa j) key" Itoa
      "[0..fanOut (options sr) - 1]" "''''", OF this]
  show ?thesis .
qed

lemma targetBranch_no_score:
  assumes "\<forall>j. 0 \<le> j \<and> j < fanOut (options sr) \<longrightarrow> hash sr (Itoa i @ Itoa j) key = 0"
  shows "targetBranch sr key i = ''''"
proof -
  have "\<forall>j\<in>set [0..fanOut (options sr) - 1]. hash sr (Itoa i @ Itoa j) key = 0"
    using assms by simp
  with targetBranch_fold [of sr i key]
  have "foldl (branchStep sr key i) (0, '''') [0..fanOut (options sr) - 1] = (0, '''')"
    by (simp only: if_True)
  then show ?thesis
    by (simp add: targetBranch_def)
qed

lemma targetBranch_argmax:
  assumes "\<exists>j. 0 \<le> j \<and> j < fanOut (options sr) \<and> hash sr (Itoa i @ Itoa j) key \<noteq> 0"
  shows "\<exists>j. 0 \<le> j \<and> j < fanOut (options sr) \<and> targetBranch sr key i = Itoa j
           \<and> (\<forall>j'. 0 \<le> j' \<and> j' < fanOut (options sr) \<longrightarrow>
                 hash sr (Itoa i @ Itoa j') key \<le> hash sr (Itoa i @ Itoa j) key)
           \<and> (\<forall>j'. 0 \<le> j' \<and> j' < j \<longrightarrow>
                 hash sr (Itoa i @ Itoa j') key < hash sr (Itoa i @ Itoa j) key)"
proof -
  let ?f = "fanOut (options sr)"
  let ?sc = "\<lambda>j. hash sr (Itoa i @ Itoa j) key"
  have "\<not> (\<forall>j\<in>set [0..?f - 1]. ?sc j = 0)"
    using assms by auto
  with targetBranch_fold [of sr i key]
  obtain k where k: "k < length [0..?f - 1]"
    and r: "foldl (branchStep sr key i) (0, '''') [0..?f - 1]
              = (?sc ([0..?f - 1] ! k), Itoa ([0..?f - 1] ! k))"
    and mx: "\<forall>j<length [0..?f - 1]. ?sc ([0..?f - 1] ! j) \<le> ?sc ([0..?f - 1] ! k)"
    and fs: "\<forall>j<k. ?sc ([0..?f - 1] ! j) < ?sc ([0..?f - 1] ! k)"
    by (simp only: if_False) blast
  from k have kf: "k < nat ?f"
    by simp
  then have nk: "[0..?f - 1] ! k = int k"
    by (rule upto_nth_nat)
  have "\<forall>j'. 0 \<le> j' \<and> j' < ?f \<longrightarrow> ?sc j' \<le> ?sc (int k)"
  proof (intro allI impI)
    fix j' assume j: "0 \<le> j' \<and> j' < ?f"
    then have "nat j' < length [0..?f - 1]"
      by simp
    with mx have "?sc ([0..?f - 1] ! nat j') \<le> ?sc ([0..?f - 1] ! k)"
      by blast
    with j show "?sc j' \<le> ?sc (int k)"
      by (simp add: nk nth_upto)
  qed
  moreover have "\<forall>j'. 0 \<le> j' \<and> j' < int k \<longrightarrow> ?sc j' < ?sc (int k)"
  proof (intro allI impI)
    fix j' assume j: "0 \<le> j' \<and> j' < int k"
    then have "nat j' < k"
      by linarith
    with fs have "?sc ([0..?f - 1] ! nat j') < ?sc ([0..?f - 1] ! k)"
      by blast
    moreover have "nat j' < nat ?f"
      using j kf by linarith
    then have "[0..?f - 1] ! nat j' = j'"
      using j by (simp add: upto_nth_nat)
    ultimately show "?sc j' < ?sc (int k)"
      by (simp add: nk)
  qed
  moreover have "targetBranch sr key i = Itoa (int k)"
    using r by (simp add: targetBranch_def nk)
  moreover have "0 \<le> int k \<and> int k < ?f"
    using kf by linarith
  ultimately show ?thesis
    by blast
qed

lemma Itoa_digit:
  assumes "0 \<le> j" "j < 10"
  shows "Itoa j = [digitChar (nat j)]"
proof -
  from assms have "nat j < 10"
    by linarith
  with assms show ?thesis
    by (simp add: Itoa_def formatDecimal.simps [of "nat j"])
qed

lemma foldl_append_concat: "foldl (\<lambda>b x. b @ g x) b xs = b @ concat (map g xs)"
  by (induction xs arbitrary: b) simp_all

lemma branchOf_concat:
  "branchOf sr key = concat (map (targetBranch sr key) [0..VirtualNodes sr - 1])"
proof -
  have "appendTarget sr key = (\<lambda>b i. b @ targetBranch sr key i)"
    by (intro ext) (simp add: appendTarget_def)
  then show ?thesis
    by (simp add: branchOf_def foldl_append_concat)
qed

lemma length_concat_singletons:
  "\<forall>x\<in>set xs. length (g x) = 1 \<Longrightarrow> length (concat (map g xs)) = length xs"
  by (induction xs) simp_all

lemma branchOf_length:
  assumes f: "fanOut (options sr) \<le> 10"
    and s: "\<forall>i. 0 \<le> i \<and> i < VirtualNodes sr \<longrightarrow>
              (\<exists>j. 0 \<le> j \<and> j < fanOut (options sr) \<and> hash sr (Itoa i @ Itoa j) key \<noteq> 0)"
  shows "length (branchOf sr key) = nat (VirtualNodes sr)"
proof -
  have "\<forall>i\<in>set [0..VirtualNodes sr - 1]. length (targetBranch sr key i) = 1"
  proof
    fix i assume "i \<in> set [0..VirtualNodes sr - 1]"
    then have "0 \<le> i \<and> i < VirtualNodes sr"
      by simp
    with s have "\<exists>j. 0 \<le> j \<and> j < fanOut (options sr) \<and> hash sr (Itoa i @ Itoa j) key \<noteq> 0"
      by blast
    from targetBranch_argmax [OF this]
    obtain j where "0 \<le> j" "j < fanOut (options sr)" "targetBranch sr key i = Itoa j"
      by blast
    with f show "length (targetBranch sr key i) = 1"
      by (simp add: Itoa_digit)
  qed
  then have "length (concat (map (targetBranch sr key) [0..VirtualNodes sr - 1]))
           = length [0..VirtualNodes sr - 1]"
    by (rule length_concat_singletons)
  then show ?thesis
    by (simp add: branchOf_concat)
qed

lemma branchIndex_sum:
  "branchIndex f acc (int (length branch) - 1) branch
     = acc + (\<Sum>k<length branch.
                f ^ (length branch - 1 - k)
                  * (case Atoi [branch ! k] of None \<Rightarrow> 0 | Some currentVal \<Rightarrow> currentVal))"
proof (induction branch arbitrary: acc)
  case Nil
  show ?case by simp
next
  case (Cons v branch)
  have "branchIndex f acc (int (length (v # branch)) - 1) (v # branch)
      = branchIndex f
          (acc + f ^ length branch
                   * (case Atoi [v] of None \<Rightarrow> 0 | Some currentVal \<Rightarrow> currentVal))
          (int (length branch) - 1) branch"
    by simp
  also have "\<dots> = acc + f ^ length branch
                         * (case Atoi [v] of None \<Rightarrow> 0 | Some currentVal \<Rightarrow> currentVal)
                 + (\<Sum>k<length branch.
                      f ^ (length branch - 1 - k)
                        * (case Atoi [branch ! k] of None \<Rightarrow> 0 | Some currentVal \<Rightarrow> currentVal))"
    by (rule Cons.IH)
  also have "\<dots> = acc + (\<Sum>k<length (v # branch).
                f ^ (length (v # branch) - 1 - k)
                  * (case Atoi [(v # branch) ! k] of None \<Rightarrow> 0 | Some currentVal \<Rightarrow> currentVal))"
    by (simp add: sum.lessThan_Suc_shift del: sum.lessThan_Suc)
  finally show ?case .
qed

lemma Atoi_digit:
  assumes "d < 10"
  shows "Atoi [digitChar d] = Some (int d)"
proof -
  from assms have "d = 0 \<or> d = 1 \<or> d = 2 \<or> d = 3 \<or> d = 4 \<or> d = 5 \<or> d = 6 \<or> d = 7
      \<or> d = 8 \<or> d = 9"
    by presburger
  then show ?thesis
    by (elim disjE) (hypsubst, code_simp)+
qed

section \<open>The tests of the repository\<close>

lemma test_create_new_cluster:
  "viewAfter testSkeleton [SetNodesCall fourNodes]
     = Inr ([[''jg1'', ''jg2''], [''jg3'', ''jg4'']], fourNodes, 1)"
  by code_simp

lemma test_should_not_contain_duplicate_nodes:
  "viewAfter testSkeleton [SetNodesCall [''jg1'', ''jg1'', ''jg2'', ''jg3'', ''jg4'']]
     = Inr ([[''jg1'', ''jg2''], [''jg3'', ''jg4'']], fourNodes, 1)"
  by code_simp

lemma test_remove_nodes:
  "viewAfter testSkeleton [SetNodesCall fourNodes, RemoveNodesCall [''jg2'', ''jg3'']]
     = Inr ([[''jg1'', ''jg4'']], [''jg1'', ''jg2'', ''jg3'', ''jg4'', ''jg1'', ''jg4''], 0)"
  by code_simp


section \<open>Topology updates\<close>

text \<open>
  Claim C1. \<open>SetNodes\<close> does not replace the cluster table: it appends the new
  clusters to the old ones and places the new nodes from cluster 0 on. After
  \<open>SetNodes\<close> of four nodes and \<open>SetNodes\<close> of two more, with cluster size 2, the
  registry holds six nodes, the first two clusters hold three nodes each and the third
  is empty; the partition of the registry is three clusters of two.
\<close>

theorem SetNodes_second_call_not_partition:
  "viewAfter testSkeleton [SetNodesCall fourNodes, SetNodesCall [''jg5'', ''jg6'']]
     = Inr ([[''jg1'', ''jg2'', ''jg5''], [''jg3'', ''jg4'', ''jg6''], []], sixNodes, 0)
   \<and> specPartition 2 2 sixNodes = [[''jg1'', ''jg2''], [''jg3'', ''jg4''], [''jg5'', ''jg6'']]
   \<and> checkAfter testSkeleton [SetNodesCall fourNodes, SetNodesCall [''jg5'', ''jg6'']]
        registryPartitioned = Inr False"
  by code_simp

text \<open>
  Claim C5. \<open>RemoveNodes\<close> rebuilds the cluster table from the registry without the
  removed nodes, and the example of the test suite ends with one cluster. The registry
  itself is not replaced: the kept nodes are appended to it, so it still holds the
  removed nodes, and a later \<open>RemoveNodes\<close> puts them back into the cluster table.
\<close>

theorem RemoveNodes_keeps_removed_in_registry:
  "viewAfter testSkeleton [SetNodesCall fourNodes]
     = Inr ([[''jg1'', ''jg2''], [''jg3'', ''jg4'']], fourNodes, 1)
   \<and> viewAfter testSkeleton [SetNodesCall fourNodes, RemoveNodesCall [''jg2'', ''jg3'']]
     = Inr ([[''jg1'', ''jg4'']], [''jg1'', ''jg2'', ''jg3'', ''jg4'', ''jg1'', ''jg4''], 0)
   \<and> viewAfter testSkeleton
        [SetNodesCall fourNodes, RemoveNodesCall [''jg2'', ''jg3''], RemoveNodesCall [''jg1'']]
     = Inr ([[''jg2'', ''jg3'', ''jg4'']],
            [''jg1'', ''jg2'', ''jg3'', ''jg4'', ''jg1'', ''jg4'', ''jg2'', ''jg3'', ''jg4''], 0)"
  by code_simp

text \<open>
  Claim C6. The depth is computed from the number of clusters the call added, not from
  the length of the table. After the two \<open>SetNodes\<close> calls of claim C1 the table has
  three clusters and the depth is 0, so the fan-out to the power of the depth is 1.
\<close>

theorem depth_invariant_broken_by_second_SetNodes:
  "checkAfter testSkeleton [SetNodesCall fourNodes, SetNodesCall [''jg5'', ''jg6'']] depthCovers
     = Inr False"
  by code_simp

text \<open>
  Claim C7. The repetitions are removed from the input only, never against the
  registry: \<open>SetNodes\<close> of the same two nodes twice leaves each of them twice in the
  registry.
\<close>

theorem registry_duplicates_after_SetNodes_twice:
  "viewAfter testSkeleton [SetNodesCall [''jg1'', ''jg2''], SetNodesCall [''jg1'', ''jg2'']]
     = Inr ([[''jg1'', ''jg2'', ''jg1''], [''jg2'']], [''jg1'', ''jg2'', ''jg1'', ''jg2''], 0)
   \<and> checkAfter testSkeleton [SetNodesCall [''jg1'', ''jg2''], SetNodesCall [''jg1'', ''jg2'']]
        registryDistinct = Inr False"
  by code_simp

section \<open>Lookups\<close>

text \<open>
  Claim C2. A digit is appended as its decimal numeral, so with a fan-out above 10 the
  digit ten takes two characters. With fan-out 11 and two clusters the depth is 1; for
  the key \<open>k10\<close> the candidate 10 has the greatest score, the branch is the
  two-character string \<open>10\<close>, which the resolver reads as the digits 1 and 0, and the
  lookup panics.
\<close>

theorem branch_numeral_two_characters_for_digit_ten:
  "viewAfter (NewSkeletonRendezvous [FanOut 11]) [SetNodesCall fourNodes]
     = Inr ([[''jg1'', ''jg2''], [''jg3'', ''jg4'']], fourNodes, 1)
   \<and> branchAfter (NewSkeletonRendezvous [FanOut 11]) [SetNodesCall fourNodes] ''k10''
     = Inr ''10''
   \<and> lookupAfter (NewSkeletonRendezvous [FanOut 11]) [SetNodesCall fourNodes] ''k10''
     = Inr (Inl IndexOutOfRange)"
  by code_simp

text \<open>
  Claim C3. With the default options and eight nodes there are four clusters and the
  depth is 2. The key \<open>apple\<close> gets the branch \<open>11\<close>, whose value 4 is outside the
  table; the resolver then reads index \<open>4 - 4 - 1\<close>, and the lookup panics.
\<close>

theorem selectClusterNodes_fold_out_of_range:
  "viewAfter (NewSkeletonRendezvous []) [SetNodesCall eightNodes]
     = Inr ([[''jg1'', ''jg2''], [''jg3'', ''jg4''], [''jg5'', ''jg6''], [''jg7'', ''jg8'']],
            eightNodes, 2)
   \<and> branchAfter (NewSkeletonRendezvous []) [SetNodesCall eightNodes] ''apple'' = Inr ''11''
   \<and> clusterAfter (NewSkeletonRendezvous []) [SetNodesCall eightNodes] ''apple''
     = Inr (Inl IndexOutOfRange)
   \<and> lookupAfter (NewSkeletonRendezvous []) [SetNodesCall eightNodes] ''apple''
     = Inr (Inl IndexOutOfRange)"
  by code_simp

text \<open>
  Claim C4. The running maximum starts at 0 and is replaced on a strictly greater
  score only, so a member whose score is 0 is never selected. Under the default hash
  the score of \<open>zeroNode\<close> for \<open>zeroKey\<close> is 0: the cluster resolved for that key is the
  one-member cluster of \<open>zeroNode\<close>, and the lookup returns the empty string.
\<close>

theorem findHighestRandomWeight_zero_scores:
  "hash (NewSkeletonRendezvous []) zeroNode zeroKey = 0
   \<and> clusterAfter (NewSkeletonRendezvous []) [SetNodesCall [zeroNode]] zeroKey
     = Inr (Inr (Some [zeroNode]))
   \<and> lookupAfter (NewSkeletonRendezvous []) [SetNodesCall [zeroNode]] zeroKey = Inr (Inr [])"
  by code_simp

text \<open>
  Claim C9. On a new instance, whatever its options and whatever the key, the branch
  is empty, the resolver computes index 0, finds it outside the empty table and reads
  index \<open>0 - 0 - 1\<close>: the lookup panics.
\<close>

theorem FindNode_fresh_instance_panics:
  "FindNode (NewSkeletonRendezvous options') key = Inl IndexOutOfRange"
  by (simp add: FindNode_def NewSkeletonRendezvous_def branchOf_def selectClusterNodes_def
      index_def)

section \<open>Removal and lookups\<close>




end
